theory Spec2Isabelle
  imports Main "HOL-Library.AList" "HOL-Library.Sublist"
begin

section \<open>Values crossing the API of pubsub.js\<close>

text \<open>
  Event names and observers are JavaScript strings, or \<open>undefined\<close> when the caller
  leaves the argument out (the inbound message listener does so). \<open>truthy\<close> is the
  test \<^verbatim>\<open>!!x\<close>; \<open>to_string\<close> is the conversion applied when the value is used
  as a property key or handed to \<^verbatim>\<open>RegExp.prototype.test\<close>.
\<close>

datatype ident = Undefined | Str string

fun truthy :: "ident \<Rightarrow> bool" where
  "truthy Undefined = False"
| "truthy (Str s) = (s \<noteq> [])"

fun to_string :: "ident \<Rightarrow> string" where
  "to_string Undefined = ''undefined''"
| "to_string (Str s) = s"

text \<open>
  The body of an inbound message that carries a \<open>method\<close> field:
  \<^verbatim>\<open>{observer: ..., method: "app.pubsub.subscribe", args: ...}\<close>.
\<close>

record message =
  msg_observer :: ident
  msg_method :: string
  msg_args :: ident

text \<open>
  The third argument of \<open>subscribe\<close>: a function (identified by a number; what it does
  when called is given by the environment below), \<open>undefined\<close>, or a plain object such
  as an inbound message body.
\<close>

datatype jsarg = Undef | Fn nat | PlainObj message

fun is_function :: "jsarg \<Rightarrow> bool" where
  "is_function (Fn h) = True"
| "is_function _ = False"

text \<open>
  A subscription record is one of the two object shapes that \<open>subscribe\<close> pushes:
  \<^verbatim>\<open>{observer, callback}\<close> or \<^verbatim>\<open>{observer, payload}\<close>. The test
  \<^verbatim>\<open>"payload" in instance\<close> tells them apart (the key is present even when the
  payload's value is \<open>undefined\<close>).
\<close>

datatype subscription = Local ident nat | Remote ident jsarg

fun observer_of :: "subscription \<Rightarrow> ident" where
  "observer_of (Local ob h) = ob"
| "observer_of (Remote ob p) = ob"

fun has_payload :: "subscription \<Rightarrow> bool" where
  "has_payload (Local ob h) = False"
| "has_payload (Remote ob p) = True"

section \<open>The \<open>events\<close> object\<close>

text \<open>
  \<open>events\<close> is an object literal, so it inherits from \<open>Object.prototype\<close>. A property
  of it is an array (a reference into the store of arrays), or one of the inherited values:
  a native function (with its \<open>length\<close>), or \<open>Object.prototype\<close> itself, which
  the accessor \<open>__proto__\<close> yields. None of them is falsy.
\<close>

datatype propval = Arr nat | NativeFn nat | ProtoObject

definition object_prototype :: "string \<Rightarrow> propval option" where
  "object_prototype k =
     (if k = ''constructor'' then Some (NativeFn 1)
      else if k = ''hasOwnProperty'' then Some (NativeFn 1)
      else if k = ''isPrototypeOf'' then Some (NativeFn 1)
      else if k = ''propertyIsEnumerable'' then Some (NativeFn 1)
      else if k = ''toLocaleString'' then Some (NativeFn 0)
      else if k = ''toString'' then Some (NativeFn 0)
      else if k = ''valueOf'' then Some (NativeFn 0)
      else if k = ''__defineGetter__'' then Some (NativeFn 2)
      else if k = ''__defineSetter__'' then Some (NativeFn 2)
      else if k = ''__lookupGetter__'' then Some (NativeFn 1)
      else if k = ''__lookupSetter__'' then Some (NativeFn 1)
      else if k = ''__proto__'' then Some ProtoObject
      else None)"

text \<open>
  The state of the module: the own properties of \<open>events\<close> in creation order, the
  store holding the contents of every array ever created, and the next unused reference.
  \<open>push\<close> and \<open>splice\<close> change an array in place; \<open>filter\<close> and \<open>[]\<close> make new ones.
\<close>

record pubsub =
  events :: "(string \<times> propval) list"
  heap :: "nat \<Rightarrow> subscription list"
  next_ref :: nat

definition initial :: pubsub where
  "initial = \<lparr>events = [(''default'', Arr 0)], heap = (\<lambda>a. []), next_ref = 1\<rparr>"

definition get_prop :: "pubsub \<Rightarrow> string \<Rightarrow> propval option" where
  \<comment> \<open>\<^verbatim>\<open>this.events[k]\<close>: own property first, then the prototype; None is undefined\<close>
  "get_prop r k =
     (case map_of (events r) k of Some v \<Rightarrow> Some v | None \<Rightarrow> object_prototype k)"

definition has_prop :: "pubsub \<Rightarrow> string \<Rightarrow> bool" where
  \<comment> \<open>\<^verbatim>\<open>k in this.events\<close>\<close>
  "has_prop r k = (case get_prop r k of Some v \<Rightarrow> True | None \<Rightarrow> False)"

subsection \<open>Enumeration order of own keys\<close>

text \<open>
  \<open>Object.keys\<close>, \<open>Object.entries\<close> and \<open>for-in\<close> list the own enumerable keys:
  array indices first, in ascending numeric order, then the other strings in creation
  order. (The members of \<open>Object.prototype\<close> are not enumerable.)
\<close>

definition is_digit :: "char \<Rightarrow> bool" where
  "is_digit c = (48 \<le> (of_char c :: nat) \<and> (of_char c :: nat) \<le> 57)"

definition digits_val :: "string \<Rightarrow> nat" where
  "digits_val s = foldl (\<lambda>v c. 10 * v + ((of_char c :: nat) - 48)) 0 s"

definition is_array_index :: "string \<Rightarrow> bool" where
  "is_array_index s =
     (s \<noteq> [] \<and> list_all is_digit s \<and> (length s = 1 \<or> hd s \<noteq> CHR ''0'')
      \<and> digits_val s < 4294967295)"

definition own_entries :: "(string \<times> propval) list \<Rightarrow> (string \<times> propval) list" where
  "own_entries ps =
     sort_key (\<lambda>p. digits_val (fst p)) (filter (\<lambda>p. is_array_index (fst p)) ps)
     @ filter (\<lambda>p. \<not> is_array_index (fst p)) ps"

definition own_keys :: "pubsub \<Rightarrow> string list" where
  \<comment> \<open>\<^verbatim>\<open>Object.keys(this.events)\<close>\<close>
  "own_keys r = map fst (own_entries (events r))"

section \<open>Outcomes and diagnostics\<close>

text \<open>
  A call returns or throws a \<open>TypeError\<close> (calling \<open>undefined\<close> as a method, or
  reading a property of \<open>undefined\<close>). The \<open>console.error\<close> calls are
  collected, each with the list of keys it prints.
\<close>

datatype outcome = Returned | Threw

datatype diag = Error string "string list"

section \<open>subscribe, subscribeMultiple\<close>

definition ensure :: "string \<Rightarrow> pubsub \<Rightarrow> pubsub" where
  \<comment> \<open>\<^verbatim>\<open>this.events[k] = this.events[k] || []\<close>. An own property is assigned to
      itself. An inherited function becomes an own property (the inherited data property
      is writable); assigning through the inherited accessor \<open>__proto__\<close> sets the
      prototype to what it already is. Otherwise a new empty array is stored.\<close>
  "ensure k r =
     (case map_of (events r) k of
        Some v \<Rightarrow> r
      | None \<Rightarrow>
          (case object_prototype k of
             None \<Rightarrow> r\<lparr>events := events r @ [(k, Arr (next_ref r))],
                        heap := (heap r)(next_ref r := []),
                        next_ref := Suc (next_ref r)\<rparr>
           | Some ProtoObject \<Rightarrow> r
           | Some v \<Rightarrow> r\<lparr>events := events r @ [(k, v)]\<rparr>))"

definition push :: "string \<Rightarrow> subscription \<Rightarrow> pubsub \<Rightarrow> pubsub \<times> outcome" where
  \<comment> \<open>\<^verbatim>\<open>this.events[k].push(x)\<close>: only an array has \<open>push\<close>\<close>
  "push k x r =
     (case get_prop r k of
        Some (Arr a) \<Rightarrow> (r\<lparr>heap := (heap r)(a := heap r a @ [x])\<rparr>, Returned)
      | _ \<Rightarrow> (r, Threw))"

definition ascii_lower :: "char \<Rightarrow> char" where
  \<comment> \<open>without the \<open>u\<close> flag, \<open>/i\<close> folds case for the ASCII letters of these patterns only\<close>
  "ascii_lower c =
     (case map_of (zip ''ABCDEFGHIJKLMNOPQRSTUVWXYZ'' ''abcdefghijklmnopqrstuvwxyz'') c of
        Some l \<Rightarrow> l | None \<Rightarrow> c)"

definition http_test :: "ident \<Rightarrow> bool" where
  \<comment> \<open>\<^verbatim>\<open>/^http/i.test(observer)\<close>\<close>
  "http_test ob = (map ascii_lower (take 4 (to_string ob)) = ''http'')"

definition subscribe :: "ident \<Rightarrow> ident \<Rightarrow> jsarg \<Rightarrow> pubsub \<Rightarrow> pubsub \<times> diag list \<times> outcome" where
  "subscribe eventName ob cb r =
     (if truthy eventName then
        (case cb of
           Fn h \<Rightarrow>
             (let (r', out) = push (to_string eventName) (Local ob h)
                                (ensure (to_string eventName) r)
              in (r', [], out))
         | _ \<Rightarrow>
             if http_test ob then
               (let (r', out) = push (to_string eventName) (Remote ob cb)
                                  (ensure (to_string eventName) r)
                in (r', [], out))
             else (r, [], Returned))
      else (r, [Error ''Attempt to subscribe to unknown event!'' (own_keys r)], Returned))"

text \<open>
  The first argument of \<open>subscribeMultiple\<close> is an array of names, or anything else
  (\<open>undefined\<close>, a string, an object), which fails
  \<^verbatim>\<open>!!eventNames && Array.isArray(eventNames)\<close>. An array, even empty, is truthy.
\<close>

datatype names_arg = NotArray | Names "string list"

fun subscribe_each :: "string list \<Rightarrow> ident \<Rightarrow> nat \<Rightarrow> pubsub \<Rightarrow> pubsub \<times> outcome" where
  \<comment> \<open>the body of \<^verbatim>\<open>eventNames.forEach(name => ...)\<close>; a throw ends the loop\<close>
  "subscribe_each [] ob h r = (r, Returned)"
| "subscribe_each (name # names) ob h r =
     (case push name (Local ob h) (ensure name r) of
        (r', Returned) \<Rightarrow> subscribe_each names ob h r'
      | (r', Threw) \<Rightarrow> (r', Threw))"

definition subscribeMultiple ::
  "names_arg \<Rightarrow> ident \<Rightarrow> jsarg \<Rightarrow> pubsub \<Rightarrow> pubsub \<times> diag list \<times> outcome" where
  "subscribeMultiple eventNames ob cb r =
     (case eventNames of
        Names names \<Rightarrow>
          (case cb of
             Fn h \<Rightarrow> (let (r', out) = subscribe_each names ob h r in (r', [], out))
           | _ \<Rightarrow> (r, [], Returned))
      | NotArray \<Rightarrow>
          (r, [Error ''Attempt to subscribe to unknown events!'' (own_keys r)], Returned))"

section \<open>unsubscribe, unsubscribeObserver, initialize\<close>

fun unsubscribe_loop :: "ident \<Rightarrow> subscription list \<Rightarrow> subscription list" where
  \<comment> \<open>the \<open>for\<close> loop of \<open>unsubscribe\<close>: scan from index 0; at the first record
      whose observer is \<open>===\<close> the argument, \<open>splice(i, 1)\<close> and \<open>break\<close>\<close>
  "unsubscribe_loop ob [] = []"
| "unsubscribe_loop ob (x # xs) =
     (if observer_of x = ob then xs else x # unsubscribe_loop ob xs)"

definition unsubscribe :: "ident \<Rightarrow> ident \<Rightarrow> pubsub \<Rightarrow> pubsub \<times> diag list \<times> outcome" where
  \<comment> \<open>On an inherited function the loop runs up to the function's \<open>length\<close>, and
      reading \<open>.observer\<close> of its (undefined) element 0 throws; \<open>Object.prototype\<close>
      has no \<open>length\<close>, so the loop does not start.\<close>
  "unsubscribe eventName ob r =
     (if truthy eventName \<and> has_prop r (to_string eventName) then
        (case get_prop r (to_string eventName) of
           Some (Arr a) \<Rightarrow>
             (r\<lparr>heap := (heap r)(a := unsubscribe_loop ob (heap r a))\<rparr>, [], Returned)
         | Some (NativeFn n) \<Rightarrow> (r, [], if 0 < n then Threw else Returned)
         | Some ProtoObject \<Rightarrow> (r, [], Returned)
         | None \<Rightarrow> (r, [], Threw))
      else (r, [Error ''Attempt to unsubscribe from unknown event!'' (own_keys r)], Returned))"

fun filter_entries :: "ident \<Rightarrow> (string \<times> propval) list \<Rightarrow> pubsub \<Rightarrow> pubsub \<times> outcome" where
  \<comment> \<open>\<^verbatim>\<open>for (const [key,value] of Object.entries(this.events))
        this.events[key] = value.filter(s => s.observer !== observer)\<close>;
      only an array has \<open>filter\<close>\<close>
  "filter_entries ob [] r = (r, Returned)"
| "filter_entries ob ((key, v) # es) r =
     (case v of
        Arr a \<Rightarrow>
          filter_entries ob es
            (r\<lparr>events := AList.update key (Arr (next_ref r)) (events r),
               heap := (heap r)(next_ref r := filter (\<lambda>s. observer_of s \<noteq> ob) (heap r a)),
               next_ref := Suc (next_ref r)\<rparr>)
      | _ \<Rightarrow> (r, Threw))"

definition unsubscribeObserver :: "ident \<Rightarrow> pubsub \<Rightarrow> pubsub \<times> diag list \<times> outcome" where
  "unsubscribeObserver ob r =
     (if truthy ob then
        (let (r', out) = filter_entries ob (own_entries (events r)) r in (r', [], out))
      else (r, [Error ''Attempt to unsubscribe an undefined observer!'' []], Returned))"

fun clear_keys :: "string list \<Rightarrow> pubsub \<Rightarrow> pubsub" where
  "clear_keys [] r = r"
| "clear_keys (k # ks) r =
     clear_keys ks
       (r\<lparr>events := AList.update k (Arr (next_ref r)) (events r),
          heap := (heap r)(next_ref r := []),
          next_ref := Suc (next_ref r)\<rparr>)"

definition initialize :: "pubsub \<Rightarrow> pubsub" where
  \<comment> \<open>\<^verbatim>\<open>for (let listener in this.events) this.events[listener] = []\<close>\<close>
  "initialize r = clear_keys (own_keys r) r"

section \<open>isSubscribed, isSubscribedByWho\<close>

definition isSubscribed :: "ident \<Rightarrow> pubsub \<Rightarrow> bool" where
  "isSubscribed eventName r =
     (has_prop r (to_string eventName) \<and>
      (case get_prop r (to_string eventName) of
         Some (Arr a) \<Rightarrow> 0 < length (heap r a)
       | Some (NativeFn n) \<Rightarrow> 0 < n
       | _ \<Rightarrow> False))"

definition isSubscribedByWho :: "ident \<Rightarrow> pubsub \<Rightarrow> propval option" where
  \<comment> \<open>None is the \<open>null\<close> of the else branch; an array is returned by reference\<close>
  "isSubscribedByWho eventName r =
     (if has_prop r (to_string eventName) then get_prop r (to_string eventName) else None)"

section \<open>publish\<close>

text \<open>
  What the callbacks and the window do is outside the module. The environment gives, for
  every function value, what calling it with the published data does to the module's state
  (a callback may call back into the module) and whether it throws; and, for
  \<open>publishRemotely\<close>, whether it throws (reading the location of a frame of another
  origin does). \<open>publishRemotely\<close> posts messages and leaves the module's state alone.
  Callbacks are total here: a callback that never returns is not modelled.
\<close>

record 'd env =
  call :: "nat \<Rightarrow> 'd \<Rightarrow> pubsub \<Rightarrow> pubsub \<times> bool"
  remote_throws :: "subscription \<Rightarrow> 'd \<Rightarrow> bool"

text \<open>What \<open>publish\<close> does, in order: callbacks called, records handed to
  \<open>publishRemotely\<close>, and the \<open>console.warn\<close> of the catch block.\<close>

datatype 'd event = Called nat 'd | Posted subscription 'd | Warned ident subscription

fun dispatch :: "'d env \<Rightarrow> ident \<Rightarrow> 'd \<Rightarrow> subscription \<Rightarrow> pubsub \<Rightarrow> pubsub \<times> 'd event list" where
  \<comment> \<open>the \<open>try\<close>/\<open>catch\<close> in the body of the \<open>forEach\<close> callback\<close>
  "dispatch w eventName d (Remote ob p) r =
     (r, Posted (Remote ob p) d #
         (if remote_throws w (Remote ob p) d then [Warned eventName (Remote ob p)] else []))"
| "dispatch w eventName d (Local ob h) r =
     (let (r', threw) = call w h d r
      in (r', Called h d # (if threw then [Warned eventName (Local ob h)] else [])))"

fun forEach :: "'d env \<Rightarrow> ident \<Rightarrow> 'd \<Rightarrow> nat \<Rightarrow> nat \<Rightarrow> nat \<Rightarrow> pubsub \<Rightarrow> pubsub \<times> 'd event list" where
  \<comment> \<open>\<open>Array.prototype.forEach\<close> on the array at reference \<open>a\<close>: the length is read
      once, before the first call; index \<open>k\<close> is visited if the array still has it, and
      its element is read from the array as it is then. \<open>n\<close> counts the indices left.\<close>
  "forEach w eventName d a k 0 r = (r, [])"
| "forEach w eventName d a k (Suc n) r =
     (if k < length (heap r a) then
        (let (r1, t1) = dispatch w eventName d (heap r a ! k) r;
             (r2, t2) = forEach w eventName d a (Suc k) n r1
         in (r2, t1 @ t2))
      else forEach w eventName d a (Suc k) n r)"

definition publish :: "'d env \<Rightarrow> ident \<Rightarrow> 'd \<Rightarrow> pubsub \<Rightarrow> pubsub \<times> 'd event list \<times> outcome" where
  \<comment> \<open>\<^verbatim>\<open>if (this.events[eventName]) this.events[eventName].forEach(...)\<close>; an
      inherited value is truthy and has no \<open>forEach\<close>\<close>
  "publish w eventName d r =
     (case get_prop r (to_string eventName) of
        None \<Rightarrow> (r, [], Returned)
      | Some (Arr a) \<Rightarrow>
          (let (r', t) = forEach w eventName d a 0 (length (heap r a)) r
           in (r', t, Returned))
      | Some v \<Rightarrow> (r, [], Threw))"

section \<open>The inbound message listener: calls to the module itself\<close>

text \<open>
  Of the listener installed by \<open>initPostMessaging\<close>, the branch for a trusted
  plain-object body with a \<open>method\<close> field that names this module. The other branches
  go through a resolver of dotted paths that is not part of the module.
\<close>

fun split_at :: "char \<Rightarrow> string \<Rightarrow> string \<Rightarrow> string list" where
  \<comment> \<open>\<open>String.prototype.split\<close> on a one-character separator; \<open>cur\<close> is the segment
      being read\<close>
  "split_at sep cur [] = [cur]"
| "split_at sep cur (c # cs) =
     (if c = sep then cur # split_at sep [] cs else split_at sep (cur @ [c]) cs)"

fun contains :: "string \<Rightarrow> string \<Rightarrow> bool" where
  "contains pat [] = (pat = [])"
| "contains pat (c # cs) = (take (length pat) (c # cs) = pat \<or> contains pat cs)"

definition pubsub_test :: "string \<Rightarrow> bool" where
  \<comment> \<open>\<^verbatim>\<open>/pubsub/i.test(event.data.method)\<close>\<close>
  "pubsub_test s = contains ''pubsub'' (map ascii_lower s)"

definition control_call :: "message \<Rightarrow> pubsub \<Rightarrow> pubsub \<times> diag list \<times> outcome" where
  \<comment> \<open>\<^verbatim>\<open>let method = event.data.method.split(".").pop(); switch (method) {...}\<close>:
      every case calls \<open>this.subscribe\<close>\<close>
  "control_call m r =
     (let method = last (split_at (CHR ''.'') [] (msg_method m)) in
      if method = ''subscribe'' \<or> method = ''subscribeMultiple'' then
        subscribe (msg_args m) (msg_observer m) (PlainObj m) r
      else if method = ''unsubscribe'' then
        subscribe (msg_args m) (msg_observer m) Undef r
      else if method = ''unsubscribeObserver'' then
        subscribe (msg_observer m) Undefined Undef r
      else (r, [], Returned))"

definition on_method_message :: "message \<Rightarrow> pubsub \<Rightarrow> (pubsub \<times> diag list \<times> outcome) option" where
  \<comment> \<open>\<^verbatim>\<open>if (/pubsub/i.test(event.data.method)) {...} else {...}\<close>; None stands for
      the else branch, which hands the path to the resolver\<close>
  "on_method_message m r = (if pubsub_test (msg_method m) then Some (control_call m r) else None)"

section \<open>Observations used in the statements\<close>

definition bucket :: "pubsub \<Rightarrow> string \<Rightarrow> subscription list option" where
  \<comment> \<open>the contents of the array stored under a name, if an array is stored there\<close>
  "bucket r k = (case get_prop r k of Some (Arr a) \<Rightarrow> Some (heap r a) | _ \<Rightarrow> None)"

fun deliver :: "'d \<Rightarrow> subscription \<Rightarrow> 'd event" where
  "deliver d (Local ob h) = Called h d"
| "deliver d (Remote ob p) = Posted (Remote ob p) d"

fun is_warning :: "'d event \<Rightarrow> bool" where
  "is_warning (Warned e s) = True"
| "is_warning _ = False"

definition deliveries :: "'d event list \<Rightarrow> 'd event list" where
  "deliveries t = filter (\<lambda>ev. \<not> is_warning ev) t"

fun in_use :: "nat \<Rightarrow> propval \<Rightarrow> bool" where
  "in_use n (Arr a) = (a < n)"
| "in_use n v = False"

text \<open>
  A name is ready in a state when looking it up gives \<open>undefined\<close>, or an array whose
  reference is in use: it is not a member inherited from \<open>Object.prototype\<close> (nor a
  copy of one left behind as an own property).
\<close>

definition ready :: "pubsub \<Rightarrow> string \<Rightarrow> bool" where
  "ready r k = (case get_prop r k of None \<Rightarrow> True | Some v \<Rightarrow> in_use (next_ref r) v)"

definition contents :: "pubsub \<Rightarrow> string \<Rightarrow> subscription list" where
  "contents r k = (case bucket r k of Some xs \<Rightarrow> xs | None \<Rightarrow> [])"

text \<open>
  Two conditions on what callbacks do to the module: \<open>pure\<close> callbacks leave its state
  as it is (they may throw); callbacks that keep the array at \<open>a\<close> (a reference in
  use) may append to it and may change anything else, but do not remove or replace its
  elements.
\<close>

definition pure :: "'d env \<Rightarrow> bool" where
  "pure w = (\<forall>h d r. fst (call w h d r) = r)"

definition keeps_array :: "'d env \<Rightarrow> nat \<Rightarrow> bool" where
  "keeps_array w a =
     (\<forall>h d r. a < next_ref r \<longrightarrow>
        a < next_ref (fst (call w h d r)) \<and> prefix (heap r a) (heap (fst (call w h d r)) a))"

text \<open>The same environment with every throw replaced by a normal return.\<close>

definition muted :: "'d env \<Rightarrow> 'd env" where
  "muted w = \<lparr>call = (\<lambda>h d r. (fst (call w h d r), False)), remote_throws = (\<lambda>s d. False)\<rparr>"

subsection \<open>Concrete states and environments\<close>

text \<open>Scenario D of the specification: observer w's callback (function 0) throws,
  observer v's (function 1) does not.\<close>

definition scenario_D :: pubsub where
  "scenario_D =
     fst (subscribe (Str ''evt'') (Str ''v'') (Fn 1)
       (fst (subscribe (Str ''evt'') (Str ''w'') (Fn 0) initial)))"


text \<open>Callback 0 unsubscribes its own observer w from the event it is called for;
  in the second environment it subscribes a further observer u to that event instead.\<close>

definition removes_itself :: "nat env" where
  "removes_itself =
     \<lparr>call = (\<lambda>h d r. if h = 0 then (fst (unsubscribe (Str ''evt'') (Str ''w'') r), False)
                        else (r, False)),
      remote_throws = (\<lambda>s d. False)\<rparr>"

definition resubscribes :: "nat env" where
  "resubscribes =
     \<lparr>call = (\<lambda>h d r. if h = 0 then (fst (subscribe (Str ''evt'') (Str ''u'') (Fn 2) r), False)
                        else (r, False)),
      remote_throws = (\<lambda>s d. False)\<rparr>"

text \<open>Scenario E of the specification: observer z is subscribed, and a frame at
  https://x posts a request to unsubscribe it; \<open>message_U\<close> is the same request by
  event name.\<close>

definition scenario_E :: pubsub where
  "scenario_E = fst (subscribe (Str ''default'') (Str ''z'') (Fn 0) initial)"

definition message_E :: message where
  "message_E = \<lparr>msg_observer = Str ''https://x'',
                 msg_method = ''app.pubsub.unsubscribeObserver'', msg_args = Str ''z''\<rparr>"

definition message_U :: message where
  "message_U = \<lparr>msg_observer = Str ''https://x'',
                 msg_method = ''app.pubsub.unsubscribe'', msg_args = Str ''default''\<rparr>"

text \<open>A caller making a sequence of \<open>subscribe\<close> calls, each with a function, to one
  event name; a throw ends the sequence.\<close>

fun subscribe_all :: "ident \<Rightarrow> (ident \<times> nat) list \<Rightarrow> pubsub \<Rightarrow> pubsub \<times> outcome" where
  "subscribe_all eventName [] r = (r, Returned)"
| "subscribe_all eventName ((ob, h) # calls) r =
     (case subscribe eventName ob (Fn h) r of
        (r', log, Returned) \<Rightarrow> subscribe_all eventName calls r'
      | (r', log, Threw) \<Rightarrow> (r', Threw))"

text \<open>What the specification requires of the arguments of \<open>subscribeMultiple\<close>: a
  non-empty sequence of names, and a callable handler.\<close>

definition acceptable :: "names_arg \<Rightarrow> jsarg \<Rightarrow> bool" where
  "acceptable eventNames cb =
     (case eventNames of Names names \<Rightarrow> names \<noteq> [] \<and> is_function cb | NotArray \<Rightarrow> False)"

text \<open>
  A well-formed state: the own keys of \<open>events\<close> are distinct, and every own property
  is an array whose reference is in use. (A call of \<open>subscribe\<close> with the name of a
  member of \<open>Object.prototype\<close> leaves a state that is not.)
\<close>

definition well_formed :: "pubsub \<Rightarrow> bool" where
  "well_formed r =
     (distinct (map fst (events r)) \<and> list_all (\<lambda>p. in_use (next_ref r) (snd p)) (events r))"


definition tidy :: pubsub where
  "tidy =
     fst (subscribe (Str ''B'') (Str ''x'') (Fn 3)
       (fst (subscribe (Str ''A'') (Str ''y'') (Fn 2)
         (fst (subscribe (Str ''A'') (Str ''x'') (Fn 1)
           (fst (subscribe (Str ''A'') (Str ''x'') (Fn 0) initial)))))))"

text \<open>A callable handler subscribed under an observer that looks like a URL.\<close>

definition url_subscribed :: pubsub where
  "url_subscribed = fst (subscribe (Str ''login'') (Str ''HTTPS://x/frame'') (Fn 7) initial)"

text \<open>Callback 0 unsubscribes its own observer w and then throws; or it subscribes a
  further observer u and then throws.\<close>

definition removes_and_throws :: "nat env" where
  "removes_and_throws =
     \<lparr>call = (\<lambda>h d r. if h = 0 then (fst (unsubscribe (Str ''evt'') (Str ''w'') r), True)
                        else (r, False)),
      remote_throws = (\<lambda>s d. False)\<rparr>"

definition appends_and_throws :: "nat env" where
  "appends_and_throws =
     \<lparr>call = (\<lambda>h d r. if h = 0 then (fst (subscribe (Str ''evt'') (Str ''u'') (Fn 2) r), True)
                        else (r, False)),
      remote_throws = (\<lambda>s d. False)\<rparr>"

text \<open>For the event \<open>login\<close>: callback 0 unsubscribes observer a; or it subscribes a
  further observer c.\<close>

definition removes_a :: "nat env" where
  "removes_a =
     \<lparr>call = (\<lambda>h d r. if h = 0 then (fst (unsubscribe (Str ''login'') (Str ''a'') r), False)
                        else (r, False)),
      remote_throws = (\<lambda>s d. False)\<rparr>"

definition appends_c :: "nat env" where
  "appends_c =
     \<lparr>call = (\<lambda>h d r. if h = 0 then (fst (subscribe (Str ''login'') (Str ''c'') (Fn 2) r), False)
                        else (r, False)),
      remote_throws = (\<lambda>s d. False)\<rparr>"

text \<open>Observer w is subscribed to \<open>evt\<close>; then a callable handler is subscribed to it
  under a URL.\<close>

definition w_only :: pubsub where
  "w_only = fst (subscribe (Str ''evt'') (Str ''w'') (Fn 0) initial)"

definition url_second :: pubsub where
  "url_second = fst (subscribe (Str ''evt'') (Str ''https://x/frame'') (Fn 1) w_only)"

text \<open>Observer x is subscribed to \<open>default\<close>, then (the call throws) to
  \<open>toString\<close>, then to B.\<close>

definition spoiled :: pubsub where
  "spoiled =
     fst (subscribe (Str ''B'') (Str ''x'') (Fn 2)
       (fst (subscribe (Str ''toString'') (Str ''x'') (Fn 1)
         (fst (subscribe (Str ''default'') (Str ''x'') (Fn 0) initial)))))"

section \<open>Lemmas about the loop of publish\<close>

lemmas model_defs =
  subscribe_def push_def ensure_def initial_def get_prop_def has_prop_def bucket_def
  object_prototype_def ascii_lower_def http_test_def

lemma pure_keeps_array: "pure w \<Longrightarrow> keeps_array w a"
  by (simp add: pure_def keeps_array_def)

lemma dispatch_deliveries: "deliveries (snd (dispatch w e d s r)) = [deliver d s]"
  by (cases s) (simp_all add: deliveries_def split: prod.splits)

lemma dispatch_keeps:
  assumes "keeps_array w a" and "a < next_ref r"
  shows "a < next_ref (fst (dispatch w e d s r)) \<and>
         prefix (heap r a) (heap (fst (dispatch w e d s r)) a)"
proof (cases s)
  case (Local ob h)
  from assms have "a < next_ref (fst (call w h d r)) \<and>
                   prefix (heap r a) (heap (fst (call w h d r)) a)"
    by (simp add: keeps_array_def)
  with Local show ?thesis by (simp add: case_prod_beta)
next
  case (Remote ob p)
  with assms(2) show ?thesis by simp
qed

lemma take_drop_prefix:
  assumes "prefix xs ys" and "k + n \<le> length xs"
  shows "take n (drop k ys) = take n (drop k xs)"
proof -
  from assms(1) obtain zs where "ys = xs @ zs" by (auto simp: prefix_def)
  with assms(2) show ?thesis by simp
qed

lemma forEach_keeps:
  assumes K: "keeps_array w a"
  shows "a < next_ref r \<Longrightarrow> k + n \<le> length (heap r a) \<Longrightarrow>
         a < next_ref (fst (forEach w e d a k n r)) \<and>
         prefix (heap r a) (heap (fst (forEach w e d a k n r)) a) \<and>
         deliveries (snd (forEach w e d a k n r)) = map (deliver d) (take n (drop k (heap r a)))"
proof (induction n arbitrary: k r)
  case 0
  then show ?case by (simp add: deliveries_def)
next
  case (Suc n)
  let ?xs = "heap r a"
  let ?s = "?xs ! k"
  obtain r1 t1 where D: "dispatch w e d ?s r = (r1, t1)" by (cases "dispatch w e d ?s r")
  obtain r2 t2 where F: "forEach w e d a (Suc k) n r1 = (r2, t2)"
    by (cases "forEach w e d a (Suc k) n r1")
  from Suc.prems have lt: "k < length ?xs" by simp
  have a1: "a < next_ref r1" and p1: "prefix ?xs (heap r1 a)"
    using dispatch_keeps [OF K Suc.prems(1), of e d ?s] D by simp_all
  from p1 have len: "length ?xs \<le> length (heap r1 a)" by (rule prefix_length_le)
  with Suc.prems have bound: "Suc k + n \<le> length (heap r1 a)" by simp
  from Suc.IH [OF a1 bound] F
  have a2: "a < next_ref r2" and p2: "prefix (heap r1 a) (heap r2 a)"
    and d2: "deliveries t2 = map (deliver d) (take n (drop (Suc k) (heap r1 a)))" by simp_all
  have same: "take n (drop (Suc k) (heap r1 a)) = take n (drop (Suc k) ?xs)"
    using take_drop_prefix [OF p1, of "Suc k" n] Suc.prems by simp
  have d1: "deliveries t1 = [deliver d ?s]" using dispatch_deliveries [of w e d ?s r] D by simp
  have step: "forEach w e d a k (Suc n) r = (r2, t1 @ t2)" using lt D F by simp
  have split: "take (Suc n) (drop k ?xs) = ?s # take n (drop (Suc k) ?xs)"
    using lt by (simp add: Cons_nth_drop_Suc [symmetric])
  have "prefix ?xs (heap r2 a)" using p1 p2 by (rule prefix_order.trans)
  moreover have "deliveries (t1 @ t2) = map (deliver d) (take (Suc n) (drop k ?xs))"
    using d1 d2 same split by (simp add: deliveries_def)
  ultimately show ?case using step a2 by simp
qed


lemma dispatch_muted:
  "fst (dispatch (muted w) e d s r) = fst (dispatch w e d s r) \<and>
   snd (dispatch (muted w) e d s r) = [deliver d s]"
  by (cases s) (simp_all add: muted_def case_prod_beta)

lemma deliveries_append: "deliveries (t1 @ t2) = deliveries t1 @ deliveries t2"
  by (simp add: deliveries_def)

lemma forEach_muted:
  "fst (forEach (muted w) e d a k n r) = fst (forEach w e d a k n r) \<and>
   snd (forEach (muted w) e d a k n r) = deliveries (snd (forEach w e d a k n r))"
proof (induction n arbitrary: k r)
  case 0
  show ?case by (simp add: deliveries_def)
next
  case (Suc n)
  show ?case
  proof (cases "k < length (heap r a)")
    case True
    let ?s = "heap r a ! k"
    obtain r1 t1 where D: "dispatch w e d ?s r = (r1, t1)" by (cases "dispatch w e d ?s r")
    have M: "dispatch (muted w) e d ?s r = (r1, [deliver d ?s])"
      using dispatch_muted [of w e d ?s r] D by (cases "dispatch (muted w) e d ?s r") simp
    have d1: "deliveries t1 = [deliver d ?s]"
      using dispatch_deliveries [of w e d ?s r] D by simp
    obtain r2 t2 where F: "forEach w e d a (Suc k) n r1 = (r2, t2)"
      by (cases "forEach w e d a (Suc k) n r1")
    have FM: "forEach (muted w) e d a (Suc k) n r1 = (r2, deliveries t2)"
      using Suc.IH [of "Suc k" r1] F by (cases "forEach (muted w) e d a (Suc k) n r1") simp
    show ?thesis using True D M F FM d1 by (simp add: deliveries_append)
  next
    case False
    with Suc.IH [of "Suc k" r] show ?thesis by simp
  qed
qed

lemma forEach_posted:
  "Posted s d' \<in> set (snd (forEach w e d a k n r)) \<Longrightarrow> has_payload s"
proof (induction n arbitrary: k r)
  case 0
  then show ?case by simp
next
  case (Suc n)
  show ?case
  proof (cases "k < length (heap r a)")
    case True
    obtain r1 t1 where D: "dispatch w e d (heap r a ! k) r = (r1, t1)"
      by (cases "dispatch w e d (heap r a ! k) r")
    obtain r2 t2 where F: "forEach w e d a (Suc k) n r1 = (r2, t2)"
      by (cases "forEach w e d a (Suc k) n r1")
    from Suc.prems True D F have "Posted s d' \<in> set t1 \<or> Posted s d' \<in> set t2" by simp
    then show ?thesis
    proof
      assume "Posted s d' \<in> set t1"
      with D show ?thesis
        by (cases "heap r a ! k") (auto split: prod.splits if_splits)
    next
      assume "Posted s d' \<in> set t2"
      with F Suc.IH [of "Suc k" r1] show ?thesis by simp
    qed
  next
    case False
    with Suc.prems Suc.IH [of "Suc k" r] show ?thesis by simp
  qed
qed

lemma publish_on_array:
  "get_prop r (to_string e) = Some (Arr a) \<Longrightarrow>
   publish w e d r =
     (fst (forEach w e d a 0 (length (heap r a)) r),
      snd (forEach w e d a 0 (length (heap r a)) r), Returned)"
  by (simp add: publish_def case_prod_beta)

section \<open>Lemmas about the registry\<close>

lemma object_prototype_not_Arr: "object_prototype k \<noteq> Some (Arr a)"
  by (simp add: object_prototype_def)

lemma get_prop_Arr_own: "get_prop r k = Some (Arr a) \<Longrightarrow> map_of (events r) k = Some (Arr a)"
  by (auto simp: get_prop_def object_prototype_not_Arr split: option.splits)

lemma get_prop_None:
  "get_prop r k = None \<Longrightarrow> map_of (events r) k = None \<and> object_prototype k = None"
  by (auto simp: get_prop_def split: option.splits)

lemma append_record:
  assumes "ready r k"
  shows "\<exists>r'. push k x (ensure k r) = (r', Returned) \<and> bucket r' k = Some (contents r k @ [x])
              \<and> ready r' k"
proof (cases "get_prop r k")
  case None
  then have own: "map_of (events r) k = None" and pr: "object_prototype k = None"
    using get_prop_None by blast+
  let ?r1 = "r\<lparr>events := events r @ [(k, Arr (next_ref r))],
               heap := (heap r)(next_ref r := []), next_ref := Suc (next_ref r)\<rparr>"
  have e: "ensure k r = ?r1" using own pr by (simp add: ensure_def)
  have g: "get_prop ?r1 k = Some (Arr (next_ref r))"
    using own by (simp add: get_prop_def map_add_def)
  have c: "contents r k = []" using None by (simp add: contents_def bucket_def)
  show ?thesis using e g c
    by (simp add: push_def bucket_def ready_def get_prop_def own map_add_def)
next
  case (Some v)
  with assms obtain a where a: "get_prop r k = Some (Arr a)" and lt: "a < next_ref r"
    by (cases v) (simp_all add: ready_def)
  then have own: "map_of (events r) k = Some (Arr a)" by (simp add: get_prop_Arr_own)
  have e: "ensure k r = r" using own by (simp add: ensure_def)
  have c: "contents r k = heap r a" using a by (simp add: contents_def bucket_def)
  show ?thesis using e a c lt
    by (simp add: push_def bucket_def ready_def get_prop_def own)
qed

lemma subscribe_callable:
  assumes "truthy eventName" and "ready r (to_string eventName)"
  shows "\<exists>r'. subscribe eventName ob (Fn h) r = (r', [], Returned) \<and>
              bucket r' (to_string eventName) = Some (contents r (to_string eventName) @ [Local ob h]) \<and>
              ready r' (to_string eventName)"
proof -
  from append_record [OF assms(2), of "Local ob h"] obtain r'
    where "push (to_string eventName) (Local ob h) (ensure (to_string eventName) r) = (r', Returned)"
      and "bucket r' (to_string eventName) = Some (contents r (to_string eventName) @ [Local ob h])"
      and "ready r' (to_string eventName)" by blast
  with assms(1) show ?thesis by (simp add: subscribe_def)
qed

lemma subscribe_all_ready:
  assumes "truthy eventName"
  shows "ready r (to_string eventName) \<Longrightarrow>
         snd (subscribe_all eventName calls r) = Returned \<and>
         contents (fst (subscribe_all eventName calls r)) (to_string eventName)
           = contents r (to_string eventName) @ map (\<lambda>(ob, h). Local ob h) calls \<and>
         ready (fst (subscribe_all eventName calls r)) (to_string eventName)"
proof (induction calls arbitrary: r)
  case Nil
  then show ?case by simp
next
  case (Cons c calls)
  obtain ob h where c: "c = (ob, h)" by (cases c)
  from subscribe_callable [OF assms Cons.prems, of ob h] obtain r'
    where s: "subscribe eventName ob (Fn h) r = (r', [], Returned)"
      and b: "bucket r' (to_string eventName) = Some (contents r (to_string eventName) @ [Local ob h])"
      and o: "ready r' (to_string eventName)" by blast
  from b have cr: "contents r' (to_string eventName) = contents r (to_string eventName) @ [Local ob h]"
    by (simp add: contents_def)
  from Cons.IH [OF o] cr s c show ?case by simp
qed

lemma publish_ready_keeps:
  assumes "ready r (to_string e)"
    and "\<forall>a. get_prop r (to_string e) = Some (Arr a) \<longrightarrow> keeps_array w a"
  shows "deliveries (fst (snd (publish w e d r))) = map (deliver d) (contents r (to_string e))"
proof (cases "get_prop r (to_string e)")
  case None
  then show ?thesis by (simp add: publish_def contents_def bucket_def deliveries_def)
next
  case (Some v)
  with assms(1) obtain a where g: "get_prop r (to_string e) = Some (Arr a)" and lt: "a < next_ref r"
    by (cases v) (simp_all add: ready_def)
  with assms(2) have K: "keeps_array w a" by blast
  have "deliveries (fst (snd (publish w e d r))) = map (deliver d) (heap r a)"
    using g forEach_keeps [OF K lt, of 0 "length (heap r a)" e d]
    by (simp add: publish_on_array)
  with g show ?thesis by (simp add: contents_def bucket_def)
qed

lemma subscribe_env_keeps:
  "keeps_array \<lparr>call = (\<lambda>h d r. if h = 0 then (fst (subscribe e ob cb r), t) else (r, t')),
                remote_throws = f\<rparr> a"
  by (auto simp: keeps_array_def subscribe_def push_def ensure_def get_prop_def Let_def map_add_def
           split: jsarg.splits option.splits propval.splits if_splits)

lemma publish_posted:
  "Posted s d' \<in> set (fst (snd (publish w e d r))) \<Longrightarrow> has_payload s"
proof (cases "get_prop r (to_string e)")
  case None
  assume "Posted s d' \<in> set (fst (snd (publish w e d r)))"
  with None show ?thesis by (simp add: publish_def)
next
  case (Some v)
  assume P: "Posted s d' \<in> set (fst (snd (publish w e d r)))"
  show ?thesis
  proof (cases v)
    case (Arr a)
    with Some P have "Posted s d' \<in> set (snd (forEach w e d a 0 (length (heap r a)) r))"
      by (simp add: publish_on_array)
    then show ?thesis by (rule forEach_posted)
  next
    case (NativeFn n)
    with Some P show ?thesis by (simp add: publish_def)
  next
    case ProtoObject
    with Some P show ?thesis by (simp add: publish_def)
  qed
qed




lemma own_entries_set: "set (own_entries ps) = set ps"
  by (auto simp: own_entries_def)

lemma own_entries_distinct:
  assumes "distinct (map fst ps)"
  shows "distinct (map fst (own_entries ps))"
proof -
  from assms have inj: "inj_on fst (set ps)" and d: "distinct ps"
    by (simp_all add: distinct_map)
  have "distinct (own_entries ps)" using d by (auto simp: own_entries_def)
  moreover have "inj_on fst (set (own_entries ps))" using inj by (simp add: own_entries_set)
  ultimately show ?thesis by (simp add: distinct_map)
qed

lemma filter_entries_inv:
  assumes "distinct (map fst es)"
    and "fst ` set es \<subseteq> fst ` set (events r)"
    and "\<forall>p \<in> set es. \<exists>a. snd p = Arr a \<and> a < next_ref r"
  shows "snd (filter_entries ob es r) = Returned \<and>
         map fst (events (fst (filter_entries ob es r))) = map fst (events r) \<and>
         next_ref r \<le> next_ref (fst (filter_entries ob es r)) \<and>
         (\<forall>b < next_ref r. heap (fst (filter_entries ob es r)) b = heap r b) \<and>
         (\<forall>k. k \<notin> fst ` set es \<longrightarrow>
              map_of (events (fst (filter_entries ob es r))) k = map_of (events r) k) \<and>
         (\<forall>k a. (k, Arr a) \<in> set es \<longrightarrow>
              (\<exists>a'. map_of (events (fst (filter_entries ob es r))) k = Some (Arr a') \<and>
                    a' < next_ref (fst (filter_entries ob es r)) \<and>
                    heap (fst (filter_entries ob es r)) a'
                      = filter (\<lambda>s. observer_of s \<noteq> ob) (heap r a)))"
  using assms
proof (induction es arbitrary: r)
  case Nil
  show ?case by simp
next
  case (Cons e es)
  obtain key v where e: "e = (key, v)" by (cases e)
  from Cons.prems(3) e obtain a0 where v: "v = Arr a0" and a0: "a0 < next_ref r" by auto
  let ?n = "next_ref r"
  let ?r1 = "r\<lparr>events := AList.update key (Arr ?n) (events r),
               heap := (heap r)(?n := filter (\<lambda>s. observer_of s \<noteq> ob) (heap r a0)),
               next_ref := Suc ?n\<rparr>"
  let ?r' = "fst (filter_entries ob es ?r1)"
  have step: "filter_entries ob (e # es) r = filter_entries ob es ?r1"
    using e v by simp
  from Cons.prems(2) e have kin: "key \<in> fst ` set (events r)" by auto
  then have keys1: "map fst (events ?r1) = map fst (events r)"
    by (simp add: update_keys)
  have d: "distinct (map fst es)" and knot: "key \<notin> fst ` set es"
    using Cons.prems(1) e by auto
  have sub: "fst ` set es \<subseteq> fst ` set (events ?r1)"
    using Cons.prems(2) by (auto simp: dom_update)
  have bnd: "\<forall>p \<in> set es. \<exists>a. snd p = Arr a \<and> a < next_ref ?r1"
    using Cons.prems(3) by (auto simp: less_Suc_eq)
  note IH = Cons.IH [OF d sub bnd]
  from IH have out: "snd (filter_entries ob es ?r1) = Returned" by blast
  from IH have keys: "map fst (events ?r') = map fst (events ?r1)" by blast
  from IH have nx: "next_ref ?r1 \<le> next_ref ?r'" by blast
  from IH have hp: "\<forall>b < next_ref ?r1. heap ?r' b = heap ?r1 b" by blast
  from IH have oth: "\<forall>k. k \<notin> fst ` set es \<longrightarrow> map_of (events ?r') k = map_of (events ?r1) k"
    by blast
  from IH have upd: "\<forall>k a. (k, Arr a) \<in> set es \<longrightarrow>
              (\<exists>a'. map_of (events ?r') k = Some (Arr a') \<and> a' < next_ref ?r' \<and>
                    heap ?r' a' = filter (\<lambda>s. observer_of s \<noteq> ob) (heap ?r1 a))"
    by blast
  have c1: "snd (filter_entries ob (e # es) r) = Returned" using step out by simp
  have c2: "map fst (events (fst (filter_entries ob (e # es) r))) = map fst (events r)"
    using step keys keys1 by simp
  have c3: "next_ref r \<le> next_ref (fst (filter_entries ob (e # es) r))"
    using step nx by simp
  have c4: "\<forall>b < next_ref r. heap (fst (filter_entries ob (e # es) r)) b = heap r b"
    using step hp by simp
  have c5: "\<forall>k. k \<notin> fst ` set (e # es) \<longrightarrow>
              map_of (events (fst (filter_entries ob (e # es) r))) k = map_of (events r) k"
    using step oth e by (simp add: update_conv')
  have c6: "\<exists>a'. map_of (events (fst (filter_entries ob (e # es) r))) k = Some (Arr a') \<and>
                  a' < next_ref (fst (filter_entries ob (e # es) r)) \<and>
                  heap (fst (filter_entries ob (e # es) r)) a'
                    = filter (\<lambda>s. observer_of s \<noteq> ob) (heap r a)"
    if m: "(k, Arr a) \<in> set (e # es)" for k a
  proof (cases "(k, Arr a) \<in> set es")
    case True
    with Cons.prems(3) have alt: "a < next_ref r" by fastforce
    from upd True obtain a' where "map_of (events ?r') k = Some (Arr a')"
      and "a' < next_ref ?r'"
      and "heap ?r' a' = filter (\<lambda>s. observer_of s \<noteq> ob) (heap ?r1 a)" by blast
    with alt step show ?thesis by simp
  next
    case False
    with m e v have k: "k = key" and a: "a = a0" by auto
    have "map_of (events ?r') key = Some (Arr ?n)"
      using oth knot by (simp add: update_conv')
    moreover have "heap ?r' ?n = filter (\<lambda>s. observer_of s \<noteq> ob) (heap r a0)"
      using hp by simp
    moreover have "?n < next_ref ?r'" using nx by simp
    ultimately show ?thesis using step k a by simp
  qed
  from c1 c2 c3 c4 c5 c6 show ?case by blast
qed

text \<open>Well-formedness holds at the start and is kept by the operations, as long as
  no member of \<open>Object.prototype\<close> is subscribed to.\<close>

lemma well_formed_initial: "well_formed initial"
  by (simp add: well_formed_def initial_def)

lemma in_use_mono: "in_use n v \<Longrightarrow> n \<le> m \<Longrightarrow> in_use m v"
  by (cases v) simp_all

lemma well_formed_ensure:
  assumes "well_formed r" and "object_prototype k = None"
  shows "well_formed (ensure k r)"
proof (cases "map_of (events r) k")
  case None
  then have k: "k \<notin> fst ` set (events r)" by (simp add: map_of_eq_None_iff)
  from assms(1) have "list_all (\<lambda>p. in_use (next_ref r) (snd p)) (events r)"
    by (simp add: well_formed_def)
  then have "list_all (\<lambda>p. in_use (Suc (next_ref r)) (snd p)) (events r)"
    by (auto simp: list_all_iff intro: in_use_mono)
  with assms None k show ?thesis
    by (simp add: ensure_def well_formed_def)
next
  case (Some v)
  with assms(1) show ?thesis by (simp add: ensure_def)
qed

lemma well_formed_heap: "well_formed (r\<lparr>heap := h\<rparr>) = well_formed r"
  by (simp add: well_formed_def)

lemma well_formed_subscribe:
  assumes "well_formed r" and "object_prototype (to_string eventName) = None"
  shows "well_formed (fst (subscribe eventName ob cb r))"
  using assms well_formed_ensure [OF assms]
  by (auto simp: subscribe_def push_def Let_def well_formed_heap
           split: jsarg.splits option.splits propval.splits)

lemma well_formed_unsubscribe:
  "well_formed r \<Longrightarrow> well_formed (fst (unsubscribe eventName ob r))"
  by (auto simp: unsubscribe_def well_formed_heap split: option.splits propval.splits)


lemma well_formed_unsubscribeObserver:
  assumes "well_formed r"
  shows "well_formed (fst (unsubscribeObserver ob r))"
proof (cases "truthy ob")
  case False
  with assms show ?thesis by (simp add: unsubscribeObserver_def)
next
  case True
  let ?es = "own_entries (events r)"
  let ?r' = "fst (filter_entries ob ?es r)"
  from assms have dist: "distinct (map fst (events r))"
    and la: "list_all (\<lambda>p. in_use (next_ref r) (snd p)) (events r)"
    by (simp_all add: well_formed_def)
  have arrs: "\<forall>p \<in> set (events r). \<exists>a. snd p = Arr a \<and> a < next_ref r"
  proof
    fix p assume "p \<in> set (events r)"
    with la have "in_use (next_ref r) (snd p)" by (simp add: list_all_iff)
    then show "\<exists>a. snd p = Arr a \<and> a < next_ref r" by (cases "snd p") simp_all
  qed
  have d: "distinct (map fst ?es)" using dist by (rule own_entries_distinct)
  have s: "fst ` set ?es \<subseteq> fst ` set (events r)" by (simp add: own_entries_set)
  have b: "\<forall>p \<in> set ?es. \<exists>a. snd p = Arr a \<and> a < next_ref r"
    using arrs by (simp add: own_entries_set)
  note inv = filter_entries_inv [OF d s b, of ob]
  from inv have keys: "map fst (events ?r') = map fst (events r)" by blast
  have "in_use (next_ref ?r') (snd p)" if p: "p \<in> set (events ?r')" for p
  proof -
    obtain k v where kv: "p = (k, v)" by (cases p)
    from keys dist have "distinct (map fst (events ?r'))" by simp
    with p kv have m: "map_of (events ?r') k = Some v" by simp
    from p kv have "k \<in> fst ` set (events ?r')" by force
    then have "k \<in> set (map fst (events r))" using keys by (metis set_map)
    then obtain v0 where "(k, v0) \<in> set (events r)" by auto
    with arrs obtain a where "(k, Arr a) \<in> set ?es" by (fastforce simp: own_entries_set)
    with inv obtain a' where "map_of (events ?r') k = Some (Arr a')" and "a' < next_ref ?r'"
      by blast
    with m kv show ?thesis by auto
  qed
  then have "list_all (\<lambda>p. in_use (next_ref ?r') (snd p)) (events ?r')"
    by (simp add: list_all_iff)
  with keys dist True show ?thesis
    by (simp add: well_formed_def unsubscribeObserver_def case_prod_beta)
qed

section \<open>Failure isolation in publish\<close>

text \<open>
  C1 (as stated, it fails). A throw is caught, but the loop walks the live array. In
  scenario D, let the callback of the first record unsubscribe its observer and then throw:
  the \<open>catch\<close> logs the warning, \<open>publish\<close> returns, and the handler of the second
  record is never invoked, because the array has shrunk under the loop.
\<close>

theorem publish_skips_after_throwing_removal:
  "heap scenario_D 1 = [Local (Str ''w'') 0, Local (Str ''v'') 1] \<and>
   publish removes_and_throws (Str ''evt'') (5::nat) scenario_D
     = (scenario_D\<lparr>heap := (heap scenario_D)(1 := [Local (Str ''v'') 1])\<rparr>,
        [Called 0 5, Warned (Str ''evt'') (Local (Str ''w'') 0)], Returned) \<and>
   Called 1 (5::nat)
     \<notin> set (fst (snd (publish removes_and_throws (Str ''evt'') 5 scenario_D)))"
  by (simp add: scenario_D_def removes_and_throws_def publish_def unsubscribe_def model_defs
      numeral_2_eq_2)

text \<open>
  C1 (amended). Let the event name be that of a bucket. \<open>publish\<close> returns to its
  caller whatever the callbacks do: every throw is caught inside it. A throw changes
  nothing but the warning it adds: the resulting state and the calls made are those of the
  same callbacks with every throw replaced by a normal return. And if no callback removes
  or replaces elements of the bucket's array in place (callbacks may append to it, and may
  throw), the handlers of all records, those after a throwing one included, are invoked
  with the data, once each and in order.
\<close>

theorem publish_isolates_failures:
  assumes "get_prop r (to_string eventName) = Some (Arr a)"
  shows "snd (snd (publish w eventName d r)) = Returned \<and>
         fst (publish w eventName d r) = fst (publish (muted w) eventName d r) \<and>
         deliveries (fst (snd (publish w eventName d r)))
           = fst (snd (publish (muted w) eventName d r)) \<and>
         (a < next_ref r \<and> keeps_array w a \<longrightarrow>
            deliveries (fst (snd (publish w eventName d r))) = map (deliver d) (heap r a))"
proof -
  have out: "snd (snd (publish w eventName d r)) = Returned"
    using assms by (simp add: publish_on_array)
  have st: "fst (publish w eventName d r) = fst (publish (muted w) eventName d r)"
    using assms forEach_muted [of w eventName d a 0 "length (heap r a)" r]
    by (simp add: publish_on_array)
  have tr: "deliveries (fst (snd (publish w eventName d r)))
              = fst (snd (publish (muted w) eventName d r))"
    using assms forEach_muted [of w eventName d a 0 "length (heap r a)" r]
    by (simp add: publish_on_array)
  have "deliveries (fst (snd (publish w eventName d r))) = map (deliver d) (heap r a)"
    if lt: "a < next_ref r" and K: "keeps_array w a"
    using assms forEach_keeps [OF K lt, of 0 "length (heap r a)" eventName d]
    by (simp add: publish_on_array)
  with out st tr show ?thesis by blast
qed

theorem publish_isolates_failures_witness:
  "get_prop scenario_D (to_string (Str ''evt'')) = Some (Arr 1) \<and>
   1 < next_ref scenario_D \<and> keeps_array appends_and_throws 1 \<and>
   heap scenario_D 1 = [Local (Str ''w'') 0, Local (Str ''v'') 1] \<and>
   snd (snd (publish appends_and_throws (Str ''evt'') (5::nat) scenario_D)) = Returned \<and>
   fst (snd (publish appends_and_throws (Str ''evt'') (5::nat) scenario_D))
     = [Called 0 5, Warned (Str ''evt'') (Local (Str ''w'') 0), Called 1 5] \<and>
   deliveries (fst (snd (publish appends_and_throws (Str ''evt'') (5::nat) scenario_D)))
     = [Called 0 5, Called 1 5]"
proof -
  have g: "get_prop scenario_D (to_string (Str ''evt'')) = Some (Arr 1)"
    by (simp add: scenario_D_def model_defs)
  have n: "1 < next_ref scenario_D" by (simp add: scenario_D_def model_defs)
  have k: "keeps_array appends_and_throws 1"
    unfolding appends_and_throws_def by (rule subscribe_env_keeps)
  have h: "heap scenario_D 1 = [Local (Str ''w'') 0, Local (Str ''v'') 1]"
    by (simp add: scenario_D_def model_defs)
  have t: "fst (snd (publish appends_and_throws (Str ''evt'') (5::nat) scenario_D))
     = [Called 0 5, Warned (Str ''evt'') (Local (Str ''w'') 0), Called 1 5]"
    by (simp add: scenario_D_def appends_and_throws_def publish_def model_defs numeral_2_eq_2)
  note th = publish_isolates_failures [OF g, of appends_and_throws 5]
  from th have out: "snd (snd (publish appends_and_throws (Str ''evt'') (5::nat) scenario_D))
     = Returned" by blast
  from th n k have "deliveries (fst (snd (publish appends_and_throws (Str ''evt'') (5::nat)
     scenario_D))) = map (deliver 5) (heap scenario_D 1)" by blast
  with h have del: "deliveries (fst (snd (publish appends_and_throws (Str ''evt'') (5::nat)
     scenario_D))) = [Called 0 5, Called 1 5]" by simp
  from g n k h out t del show ?thesis by simp
qed

section \<open>publish iterates the live array\<close>

text \<open>
  C3 (as stated, it fails). \<open>publish\<close> takes no snapshot: \<open>forEach\<close> walks the
  bucket's own array. In scenario D, let the callback of the first record unsubscribe its
  observer from the event: \<open>splice\<close> shortens the array in place, the second record
  moves to index 0, and index 1, where the loop goes next, is gone. The second record,
  present when \<open>publish\<close> began, is never invoked.
\<close>

theorem publish_skips_after_removal:
  "heap scenario_D 1 = [Local (Str ''w'') 0, Local (Str ''v'') 1] \<and>
   fst (snd (publish removes_itself (Str ''evt'') (5::nat) scenario_D)) = [Called 0 5] \<and>
   Called 1 (5::nat) \<notin> set (fst (snd (publish removes_itself (Str ''evt'') 5 scenario_D)))"
  by (simp add: scenario_D_def removes_itself_def publish_def unsubscribe_def model_defs
      numeral_2_eq_2)

text \<open>
  C3 (amended). \<open>publish\<close> iterates over the live array of the bucket, up to the length
  it had when \<open>publish\<close> began. If no callback removes or replaces elements of that
  array in place (callbacks may append to it, and may do anything to the rest of the
  state, such as storing a new array under the name), then every record present at the
  start is invoked exactly once, in order, and records appended meanwhile are not.
\<close>

theorem publish_visits_live_array:
  assumes "get_prop r (to_string eventName) = Some (Arr a)"
    and "a < next_ref r"
    and "keeps_array w a"
  shows "deliveries (fst (snd (publish w eventName d r))) = map (deliver d) (heap r a) \<and>
         prefix (heap r a) (heap (fst (publish w eventName d r)) a)"
  using assms(1) forEach_keeps [OF assms(3) assms(2), of 0 "length (heap r a)" eventName d]
  by (simp add: publish_on_array)

text \<open>\<open>subscribe\<close> called from a callback is such a change: it appends, or allocates.\<close>

lemma subscribe_keeps:
  "a < next_ref r \<Longrightarrow>
   a < next_ref (fst (subscribe e ob cb r)) \<and> prefix (heap r a) (heap (fst (subscribe e ob cb r)) a)"
  by (auto simp: subscribe_def push_def ensure_def get_prop_def Let_def map_add_def
           split: jsarg.splits option.splits propval.splits if_splits)

text \<open>So are \<open>unsubscribeObserver\<close> and \<open>initialize\<close>: they store new arrays
  under the names and leave the arrays in use as they are.\<close>

lemma filter_entries_keeps:
  "next_ref r \<le> next_ref (fst (filter_entries ob es r)) \<and>
   (\<forall>b < next_ref r. heap (fst (filter_entries ob es r)) b = heap r b)"
proof (induction es arbitrary: r)
  case Nil
  show ?case by simp
next
  case (Cons e es)
  obtain key v where e: "e = (key, v)" by (cases e)
  show ?case
  proof (cases v)
    case (Arr a0)
    let ?r1 = "r\<lparr>events := AList.update key (Arr (next_ref r)) (events r),
                 heap := (heap r)(next_ref r := filter (\<lambda>s. observer_of s \<noteq> ob) (heap r a0)),
                 next_ref := Suc (next_ref r)\<rparr>"
    have step: "filter_entries ob (e # es) r = filter_entries ob es ?r1" using e Arr by simp
    from Cons.IH [of ?r1] show ?thesis unfolding step by auto
  next
    case (NativeFn n)
    with e show ?thesis by simp
  next
    case ProtoObject
    with e show ?thesis by simp
  qed
qed

lemma unsubscribeObserver_keeps:
  "a < next_ref r \<Longrightarrow>
   a < next_ref (fst (unsubscribeObserver ob r)) \<and>
   heap (fst (unsubscribeObserver ob r)) a = heap r a"
  using filter_entries_keeps [of r ob "own_entries (events r)"]
  by (auto simp: unsubscribeObserver_def case_prod_beta)

lemma clear_keys_keeps:
  "next_ref r \<le> next_ref (clear_keys ks r) \<and>
   (\<forall>b < next_ref r. heap (clear_keys ks r) b = heap r b)"
proof (induction ks arbitrary: r)
  case Nil
  show ?case by simp
next
  case (Cons k ks)
  let ?r1 = "r\<lparr>events := AList.update k (Arr (next_ref r)) (events r),
               heap := (heap r)(next_ref r := []), next_ref := Suc (next_ref r)\<rparr>"
  from Cons.IH [of ?r1] show ?case by auto
qed

lemma initialize_keeps:
  "a < next_ref r \<Longrightarrow>
   a < next_ref (initialize r) \<and> heap (initialize r) a = heap r a"
  using clear_keys_keeps [of r "own_keys r"] by (auto simp: initialize_def)

theorem publish_visits_live_array_witness:
  "get_prop scenario_D (to_string (Str ''evt'')) = Some (Arr 1) \<and> 1 < next_ref scenario_D \<and>
   keeps_array resubscribes 1 \<and>
   deliveries (fst (snd (publish resubscribes (Str ''evt'') (5::nat) scenario_D)))
     = [Called 0 5, Called 1 5] \<and>
   heap (fst (publish resubscribes (Str ''evt'') (5::nat) scenario_D)) 1
     = [Local (Str ''w'') 0, Local (Str ''v'') 1, Local (Str ''u'') 2]"
proof -
  have g: "get_prop scenario_D (to_string (Str ''evt'')) = Some (Arr 1)"
    by (simp add: scenario_D_def model_defs)
  have n: "1 < next_ref scenario_D" by (simp add: scenario_D_def model_defs)
  have k: "keeps_array resubscribes 1"
    using subscribe_keeps [of 1] by (simp add: keeps_array_def resubscribes_def)
  have h: "heap scenario_D 1 = [Local (Str ''w'') 0, Local (Str ''v'') 1]"
    by (simp add: scenario_D_def model_defs)
  have "deliveries (fst (snd (publish resubscribes (Str ''evt'') (5::nat) scenario_D)))
     = [Called 0 5, Called 1 5]"
    using publish_visits_live_array [OF g n k, of 5] h by simp
  moreover have "heap (fst (publish resubscribes (Str ''evt'') (5::nat) scenario_D)) 1
     = [Local (Str ''w'') 0, Local (Str ''v'') 1, Local (Str ''u'') 2]"
    by (simp add: scenario_D_def resubscribes_def publish_def model_defs numeral_2_eq_2)
  ultimately show ?thesis using g n k by simp
qed

section \<open>publish leaves the registry alone\<close>



section \<open>Unknown event names\<close>

text \<open>
  For a name that is neither an own property of \<open>events\<close> nor a member of
  \<open>Object.prototype\<close>, the three operations are safe; a known, empty bucket is
  returned as an (empty) array.
\<close>

lemma unknown_name_safe:
  assumes "get_prop r (to_string eventName) = None"
  shows "publish w eventName d r = (r, [], Returned)"
    and "unsubscribe eventName ob r =
           (r, [Error ''Attempt to unsubscribe from unknown event!'' (own_keys r)], Returned)"
    and "isSubscribedByWho eventName r = None"
  using assms by (simp_all add: publish_def unsubscribe_def isSubscribedByWho_def has_prop_def)

lemma empty_bucket_known:
  assumes "bucket r (to_string eventName) = Some []"
  shows "\<exists>a. isSubscribedByWho eventName r = Some (Arr a) \<and> heap r a = []"
  using assms
  by (auto simp: bucket_def isSubscribedByWho_def has_prop_def split: option.splits propval.splits)

lemma default_bucket_empty:
  "isSubscribedByWho (Str ''default'') initial = Some (Arr 0) \<and> heap initial 0 = []"
  by (simp add: isSubscribedByWho_def model_defs)

text \<open>
  C8 (the code departs from it). The name \<open>toString\<close> has never been subscribed to and
  is no own property of \<open>events\<close>, but \<^verbatim>\<open>this.events["toString"]\<close> is the
  function inherited from \<open>Object.prototype\<close>: truthy, and without \<open>forEach\<close>. So
  \<open>publish\<close> throws a TypeError, and \<open>isSubscribedByWho\<close> returns that function
  instead of null. Likewise \<open>unsubscribe\<close> from \<open>constructor\<close> throws: the inherited
  function has length 1, and its element 0 is undefined.
\<close>

theorem inherited_name_not_safe:
  "map_of (events initial) ''toString'' = None \<and>
   publish w (Str ''toString'') d initial = (initial, [], Threw) \<and>
   isSubscribedByWho (Str ''toString'') initial = Some (NativeFn 0) \<and>
   map_of (events initial) ''constructor'' = None \<and>
   unsubscribe (Str ''constructor'') ob initial = (initial, [], Threw)"
  by (simp add: publish_def unsubscribe_def isSubscribedByWho_def model_defs)

text \<open>Subscribing under such a name fails: the inherited function is copied into
  \<open>events\<close> as an own property, and it has no \<open>push\<close>.\<close>

lemma subscribe_inherited_name:
  "subscribe (Str ''toString'') ob (Fn h) initial
     = (initial\<lparr>events := [(''default'', Arr 0), (''toString'', NativeFn 0)]\<rparr>, [], Threw)"
  by (simp add: model_defs)

section \<open>Inbound requests to unsubscribe\<close>

text \<open>
  C2 (the code departs from it). Every case of the listener's switch calls
  \<open>subscribe\<close>. For the message of scenario E the call is
  \<^verbatim>\<open>this.subscribe("https://x")\<close>, which does nothing: observer z stays in its
  bucket, where \<open>unsubscribeObserver\<close> would have emptied it. For a last segment
  \<open>unsubscribe\<close> the call is \<^verbatim>\<open>this.subscribe(args, observer)\<close>, which adds a
  remote subscription for the sender.
\<close>

theorem inbound_unsubscribe_calls_subscribe:
  "bucket scenario_E ''default'' = Some [Local (Str ''z'') 0] \<and>
   on_method_message message_E scenario_E = Some (scenario_E, [], Returned) \<and>
   bucket (fst (unsubscribeObserver (Str ''z'') scenario_E)) ''default'' = Some [] \<and>
   map_option (\<lambda>res. bucket (fst res) ''default'') (on_method_message message_U scenario_E)
     = Some (Some [Local (Str ''z'') 0, Remote (Str ''https://x'') Undef])"
  by (simp add: scenario_E_def message_E_def message_U_def on_method_message_def
      pubsub_test_def control_call_def unsubscribeObserver_def own_entries_def
      is_array_index_def is_digit_def model_defs)


section \<open>Order of delivery\<close>

text \<open>
  C4 (as stated, it fails). Subscribe a and then b to \<open>login\<close>, where the handler
  of a unsubscribes a from \<open>login\<close>. Both handlers are registered, and
  \<open>publish\<close> invokes only the first: the second moves to index 0 of the live array
  while the loop goes on to index 1.
\<close>

theorem publish_misses_registered_handler:
  "subscribe_all (Str ''login'') [(Str ''a'', 0), (Str ''b'', 1)] initial
     = (initial\<lparr>events := [(''default'', Arr 0), (''login'', Arr 1)],
          heap := (heap initial)(1 := [Local (Str ''a'') 0, Local (Str ''b'') 1]),
          next_ref := 2\<rparr>, Returned) \<and>
   deliveries (fst (snd (publish removes_a (Str ''login'') (5::nat)
      (fst (subscribe_all (Str ''login'') [(Str ''a'', 0), (Str ''b'', 1)] initial)))))
     = [Called 0 5]"
  by (simp add: removes_a_def publish_def unsubscribe_def deliveries_def model_defs
      numeral_2_eq_2)

text \<open>
  C4 (amended). Take a truthy event name that is unknown or names a bucket, and any
  sequence of \<open>subscribe\<close> calls to it with callable handlers. Every call returns, and
  the bucket is what it was followed by one local record per call, in call order (nothing
  is deduplicated). If no callback removes or replaces elements of the bucket's array in
  place during dispatch, \<open>publish\<close> invokes the handlers of the bucket exactly once each
  in that order: first those already there, then the handler of each call, a handler
  subscribed twice being called twice.
\<close>

theorem publish_in_subscription_order:
  assumes "truthy eventName" and "ready r (to_string eventName)"
    and "\<forall>a. get_prop (fst (subscribe_all eventName calls r)) (to_string eventName) = Some (Arr a)
             \<longrightarrow> keeps_array w a"
  shows "snd (subscribe_all eventName calls r) = Returned \<and>
         contents (fst (subscribe_all eventName calls r)) (to_string eventName)
           = contents r (to_string eventName) @ map (\<lambda>(ob, h). Local ob h) calls \<and>
         deliveries (fst (snd (publish w eventName d (fst (subscribe_all eventName calls r)))))
           = map (deliver d) (contents r (to_string eventName))
             @ map (\<lambda>(ob, h). Called h d) calls"
proof -
  let ?r' = "fst (subscribe_all eventName calls r)"
  from subscribe_all_ready [OF assms(1) assms(2), of calls]
  have out: "snd (subscribe_all eventName calls r) = Returned"
    and con: "contents ?r' (to_string eventName)
                = contents r (to_string eventName) @ map (\<lambda>(ob, h). Local ob h) calls"
    and rdy: "ready ?r' (to_string eventName)" by simp_all
  have m: "map (deliver d) (map (\<lambda>(ob, h). Local ob h) calls) = map (\<lambda>(ob, h). Called h d) calls"
    by (induction calls) auto
  have "deliveries (fst (snd (publish w eventName d ?r')))
          = map (deliver d) (contents ?r' (to_string eventName))"
    using rdy assms(3) by (rule publish_ready_keeps)
  with con m have "deliveries (fst (snd (publish w eventName d ?r')))
           = map (deliver d) (contents r (to_string eventName))
             @ map (\<lambda>(ob, h). Called h d) calls" by simp
  with out con show ?thesis by simp
qed

theorem publish_in_subscription_order_witness:
  "truthy (Str ''login'') \<and> ready initial (to_string (Str ''login'')) \<and>
   get_prop (fst (subscribe_all (Str ''login'') [(Str ''a'', 0), (Str ''b'', 1), (Str ''a'', 0)]
      initial)) (to_string (Str ''login'')) = Some (Arr 1) \<and>
   keeps_array appends_c 1 \<and>
   snd (subscribe_all (Str ''login'') [(Str ''a'', 0), (Str ''b'', 1), (Str ''a'', 0)] initial)
     = Returned \<and>
   deliveries (fst (snd (publish appends_c (Str ''login'') (5::nat)
      (fst (subscribe_all (Str ''login'') [(Str ''a'', 0), (Str ''b'', 1), (Str ''a'', 0)] initial)))))
     = [Called 0 5, Called 1 5, Called 0 5]"
proof -
  have t: "truthy (Str ''login'')" by simp
  have o: "ready initial (to_string (Str ''login''))" by (simp add: ready_def model_defs)
  have g: "get_prop (fst (subscribe_all (Str ''login'')
      [(Str ''a'', 0), (Str ''b'', 1), (Str ''a'', 0)] initial)) (to_string (Str ''login''))
      = Some (Arr 1)"
    by (simp add: model_defs)
  have k: "keeps_array appends_c 1"
    unfolding appends_c_def by (rule subscribe_env_keeps)
  have c: "contents initial (to_string (Str ''login'')) = []" by (simp add: contents_def model_defs)
  from g k have K: "\<forall>a. get_prop (fst (subscribe_all (Str ''login'')
      [(Str ''a'', 0), (Str ''b'', 1), (Str ''a'', 0)] initial)) (to_string (Str ''login''))
      = Some (Arr a) \<longrightarrow> keeps_array appends_c a" by simp
  from publish_in_subscription_order [OF t o K, of 5] c
  show ?thesis using t o g k by simp
qed

section \<open>A callable handler under a URL observer\<close>

text \<open>
  C9 (as stated, it fails). With observer w already subscribed to \<open>evt\<close>, subscribe a
  callable handler (function 1) under a URL: the record is a local one. Let w's callback
  unsubscribe w when called. \<open>publish\<close> then never reaches the new record: its callback
  is not invoked, locally or otherwise.
\<close>

theorem publish_misses_url_record:
  "truthy (Str ''evt'') \<and> http_test (Str ''https://x/frame'') \<and>
   subscribe (Str ''evt'') (Str ''https://x/frame'') (Fn 1) w_only = (url_second, [], Returned) \<and>
   bucket url_second ''evt'' = Some [Local (Str ''w'') 0, Local (Str ''https://x/frame'') 1] \<and>
   fst (snd (publish removes_itself (Str ''evt'') (5::nat) url_second)) = [Called 0 5] \<and>
   Called 1 (5::nat) \<notin> set (fst (snd (publish removes_itself (Str ''evt'') 5 url_second)))"
  by (simp add: url_second_def w_only_def removes_itself_def publish_def unsubscribe_def
      model_defs numeral_2_eq_2)

text \<open>
  C9 (amended). Take a truthy event name that is unknown or names a bucket, a callable
  handler, and an observer that matches \<^verbatim>\<open>/^http/i\<close>. \<open>subscribe\<close> takes the first
  branch: it returns, and the bucket gains, at its end, the record
  \<^verbatim>\<open>{observer, callback}\<close>, which has no \<open>payload\<close> key. No \<open>publish\<close> to that
  name hands this record to \<open>publishRemotely\<close>, whatever the callbacks do; and
  \<open>publish\<close> calls the handler with the data if no callback removes or replaces elements
  of the bucket's array in place during dispatch.
\<close>

theorem subscribe_callable_first:
  assumes "truthy eventName" and "ready r (to_string eventName)" and "http_test ob"
  shows "\<exists>r' a. subscribe eventName ob (Fn h) r = (r', [], Returned) \<and>
           get_prop r' (to_string eventName) = Some (Arr a) \<and>
           heap r' a = contents r (to_string eventName) @ [Local ob h] \<and>
           \<not> has_payload (Local ob h) \<and>
           (\<forall>w. \<forall>d::'d. Posted (Local ob h) d \<notin> set (fst (snd (publish w eventName d r')))) \<and>
           (\<forall>w. \<forall>d::'d. keeps_array w a \<longrightarrow>
                  Called h d \<in> set (fst (snd (publish w eventName d r'))))"
proof -
  from subscribe_callable [OF assms(1) assms(2), of ob h] obtain r'
    where s: "subscribe eventName ob (Fn h) r = (r', [], Returned)"
      and b: "bucket r' (to_string eventName) = Some (contents r (to_string eventName) @ [Local ob h])"
      and rdy: "ready r' (to_string eventName)"
    by blast
  from b obtain a where g: "get_prop r' (to_string eventName) = Some (Arr a)"
    and hp: "heap r' a = contents r (to_string eventName) @ [Local ob h]"
    by (auto simp: bucket_def split: option.splits propval.splits)
  have np: "Posted (Local ob h) d \<notin> set (fst (snd (publish w eventName d r')))" for w and d :: 'd
    using publish_posted [of "Local ob h" d w eventName d r'] by auto
  have c: "Called h d \<in> set (fst (snd (publish w eventName d r')))"
    if K: "keeps_array w a" for w and d :: 'd
  proof -
    from g K have "\<forall>a'. get_prop r' (to_string eventName) = Some (Arr a') \<longrightarrow> keeps_array w a'"
      by simp
    with rdy have "deliveries (fst (snd (publish w eventName d r')))
            = map (deliver d) (contents r' (to_string eventName))"
      by (rule publish_ready_keeps)
    with b have "Called h d \<in> set (deliveries (fst (snd (publish w eventName d r'))))"
      by (simp add: contents_def)
    then show ?thesis by (simp add: deliveries_def)
  qed
  from s g hp np c show ?thesis by auto
qed

theorem subscribe_callable_first_witness:
  "truthy (Str ''login'') \<and> ready initial (to_string (Str ''login'')) \<and>
   http_test (Str ''HTTPS://x/frame'') \<and> keeps_array appends_c 1 \<and>
   subscribe (Str ''login'') (Str ''HTTPS://x/frame'') (Fn 7) initial
     = (url_subscribed, [], Returned) \<and>
   bucket url_subscribed ''login'' = Some [Local (Str ''HTTPS://x/frame'') 7] \<and>
   Posted (Local (Str ''HTTPS://x/frame'') 7) (5::nat)
     \<notin> set (fst (snd (publish appends_c (Str ''login'') 5 url_subscribed))) \<and>
   Called 7 (5::nat) \<in> set (fst (snd (publish appends_c (Str ''login'') 5 url_subscribed)))"
proof -
  have t: "truthy (Str ''login'')" by simp
  have o: "ready initial (to_string (Str ''login''))" by (simp add: ready_def model_defs)
  have u: "http_test (Str ''HTTPS://x/frame'')" by (simp add: model_defs)
  have k: "keeps_array appends_c 1"
    unfolding appends_c_def by (rule subscribe_env_keeps)
  have bu: "bucket url_subscribed ''login'' = Some [Local (Str ''HTTPS://x/frame'') 7]"
    by (simp add: url_subscribed_def model_defs)
  have gu: "get_prop url_subscribed ''login'' = Some (Arr 1)"
    by (simp add: url_subscribed_def model_defs)
  from subscribe_callable_first [OF t o u, of 7, where 'd = nat] obtain r' a where
    s: "subscribe (Str ''login'') (Str ''HTTPS://x/frame'') (Fn 7) initial = (r', [], Returned)"
    and g: "get_prop r' (to_string (Str ''login'')) = Some (Arr a)"
    and np: "\<forall>w. \<forall>d::nat. Posted (Local (Str ''HTTPS://x/frame'') 7) d
               \<notin> set (fst (snd (publish w (Str ''login'') d r')))"
    and ca: "\<forall>w. \<forall>d::nat. keeps_array w a \<longrightarrow>
               Called 7 d \<in> set (fst (snd (publish w (Str ''login'') d r')))"
    by blast
  from s have r': "r' = url_subscribed" by (simp add: url_subscribed_def)
  with g gu have a: "a = 1" by simp
  from np have "Posted (Local (Str ''HTTPS://x/frame'') 7) (5::nat)
     \<notin> set (fst (snd (publish appends_c (Str ''login'') 5 r')))" by blast
  moreover from ca k a have "Called 7 (5::nat)
     \<in> set (fst (snd (publish appends_c (Str ''login'') 5 r')))"
    by blast
  ultimately show ?thesis using t o u k s bu r' by simp
qed

section \<open>unsubscribe removes the first match\<close>



section \<open>unsubscribeObserver removes every match\<close>

text \<open>
  C6 (the code departs from it). Subscribe observer x to \<open>default\<close>, to
  \<open>toString\<close> and to B. The second call throws, and leaves the function inherited
  from \<open>Object.prototype\<close> behind as an own property of \<open>events\<close>, between the two
  buckets. \<open>unsubscribeObserver\<close> then filters \<open>default\<close>, throws a TypeError at
  \<open>toString\<close> (a function has no \<open>filter\<close>), and never reaches B, where x stays.
\<close>

theorem unsubscribeObserver_stops_at_copied_member:
  "truthy (Str ''x'') \<and>
   events spoiled = [(''default'', Arr 0), (''toString'', NativeFn 0), (''B'', Arr 1)] \<and>
   bucket spoiled ''default'' = Some [Local (Str ''x'') 0] \<and>
   bucket spoiled ''B'' = Some [Local (Str ''x'') 2] \<and>
   snd (snd (unsubscribeObserver (Str ''x'') spoiled)) = Threw \<and>
   bucket (fst (unsubscribeObserver (Str ''x'') spoiled)) ''default'' = Some [] \<and>
   bucket (fst (unsubscribeObserver (Str ''x'') spoiled)) ''B'' = Some [Local (Str ''x'') 2]"
  by (simp add: spoiled_def unsubscribeObserver_def own_entries_def is_array_index_def
      is_digit_def model_defs)

text \<open>
  In a well-formed state, where every own property of \<open>events\<close> is an array, and for a
  truthy observer, \<open>unsubscribeObserver\<close> does what is claimed: it returns, keeps the
  event names, and turns every bucket into the list of its records whose observer is not
  the given one, in their order.
\<close>

lemma unsubscribeObserver_everywhere:
  assumes "truthy ob" and "well_formed r"
  shows "snd (snd (unsubscribeObserver ob r)) = Returned \<and>
         map fst (events (fst (unsubscribeObserver ob r))) = map fst (events r) \<and>
         (\<forall>k. bucket (fst (unsubscribeObserver ob r)) k
                = map_option (filter (\<lambda>s. observer_of s \<noteq> ob)) (bucket r k))"
proof -
  let ?es = "own_entries (events r)"
  let ?r' = "fst (filter_entries ob ?es r)"
  from assms(2) have dist: "distinct (map fst (events r))"
    and la: "list_all (\<lambda>p. in_use (next_ref r) (snd p)) (events r)"
    by (simp_all add: well_formed_def)
  have arrs: "\<forall>p \<in> set (events r). \<exists>a. snd p = Arr a \<and> a < next_ref r"
  proof
    fix p assume "p \<in> set (events r)"
    with la have "in_use (next_ref r) (snd p)" by (simp add: list_all_iff)
    then show "\<exists>a. snd p = Arr a \<and> a < next_ref r" by (cases "snd p") simp_all
  qed
  have d: "distinct (map fst ?es)" using dist by (rule own_entries_distinct)
  have s: "fst ` set ?es \<subseteq> fst ` set (events r)" by (simp add: own_entries_set)
  have b: "\<forall>p \<in> set ?es. \<exists>a. snd p = Arr a \<and> a < next_ref r"
    using arrs by (simp add: own_entries_set)
  note inv = filter_entries_inv [OF d s b, of ob]
  have res: "unsubscribeObserver ob r = (?r', [], snd (filter_entries ob ?es r))"
    using assms(1) by (simp add: unsubscribeObserver_def case_prod_beta)
  have bk: "bucket ?r' k = map_option (filter (\<lambda>s. observer_of s \<noteq> ob)) (bucket r k)" for k
  proof (cases "map_of (events r) k")
    case None
    then have "k \<notin> fst ` set ?es" by (simp add: own_entries_set map_of_eq_None_iff)
    with inv None have "map_of (events ?r') k = None" by simp
    with None show ?thesis
      by (simp add: bucket_def get_prop_def object_prototype_def)
  next
    case (Some v)
    then have m: "(k, v) \<in> set (events r)" by (rule map_of_SomeD)
    with arrs obtain a where v: "v = Arr a" by fastforce
    with m have "(k, Arr a) \<in> set ?es" by (simp add: own_entries_set)
    with inv obtain a' where "map_of (events ?r') k = Some (Arr a')"
      and "heap ?r' a' = filter (\<lambda>s. observer_of s \<noteq> ob) (heap r a)" by blast
    with Some v show ?thesis by (simp add: bucket_def get_prop_def)
  qed
  from inv res bk show ?thesis by simp
qed

lemma unsubscribeObserver_tidy:
  "truthy (Str ''x'') \<and> well_formed tidy \<and>
   bucket tidy ''A'' = Some [Local (Str ''x'') 0, Local (Str ''x'') 1, Local (Str ''y'') 2] \<and>
   bucket tidy ''B'' = Some [Local (Str ''x'') 3] \<and>
   snd (snd (unsubscribeObserver (Str ''x'') tidy)) = Returned \<and>
   bucket (fst (unsubscribeObserver (Str ''x'') tidy)) ''A'' = Some [Local (Str ''y'') 2] \<and>
   bucket (fst (unsubscribeObserver (Str ''x'') tidy)) ''B'' = Some []"
proof -
  have t: "truthy (Str ''x'')" by simp
  have w: "well_formed tidy" by (simp add: well_formed_def tidy_def model_defs)
  have a: "bucket tidy ''A'' = Some [Local (Str ''x'') 0, Local (Str ''x'') 1, Local (Str ''y'') 2]"
    by (simp add: tidy_def model_defs)
  have b: "bucket tidy ''B'' = Some [Local (Str ''x'') 3]"
    by (simp add: tidy_def model_defs)
  from unsubscribeObserver_everywhere [OF t w] a b
  have "snd (snd (unsubscribeObserver (Str ''x'') tidy)) = Returned"
    and "bucket (fst (unsubscribeObserver (Str ''x'') tidy)) ''A'' = Some [Local (Str ''y'') 2]"
    and "bucket (fst (unsubscribeObserver (Str ''x'') tidy)) ''B'' = Some []"
    by simp_all
  with t w a b show ?thesis by simp
qed

section \<open>Arguments that subscribeMultiple does not accept\<close>

text \<open>
  C7 (as stated, it fails). With an array of names and a handler that is not callable,
  \<open>subscribeMultiple\<close> registers nothing, and logs nothing either: the inner
  \<open>if\<close> has no \<open>else\<close>. The same holds for an empty array of names.
\<close>

theorem subscribeMultiple_silent:
  "\<not> is_function Undef \<and>
   subscribeMultiple (Names [''signin'', ''signout'']) (Str ''z'') Undef initial
     = (initial, [], Returned) \<and>
   subscribeMultiple (Names []) (Str ''z'') (Fn 0) initial = (initial, [], Returned)"
  by (simp add: subscribeMultiple_def)

text \<open>
  C7 (amended). Whenever \<open>eventNames\<close> is not a non-empty sequence of names or the
  handler is not callable, \<open>subscribeMultiple\<close> returns and leaves the registry
  unchanged. It logs the diagnostic exactly when \<open>eventNames\<close> is not an array; for
  an array with a handler that is not callable, and for an empty array, it logs nothing.
\<close>

theorem subscribeMultiple_rejects:
  assumes "\<not> acceptable eventNames cb"
  shows "subscribeMultiple eventNames ob cb r =
           (r, (if eventNames = NotArray
                then [Error ''Attempt to subscribe to unknown events!'' (own_keys r)] else []),
            Returned)"
  using assms
  by (cases eventNames; cases cb) (auto simp: subscribeMultiple_def acceptable_def)

theorem subscribeMultiple_rejects_witness:
  "\<not> acceptable (Names [''signin'', ''signout'']) Undef \<and> \<not> acceptable NotArray (Fn 0) \<and>
   subscribeMultiple (Names [''signin'', ''signout'']) (Str ''z'') Undef initial
     = (initial, [], Returned) \<and>
   subscribeMultiple NotArray (Str ''z'') (Fn 0) initial
     = (initial, [Error ''Attempt to subscribe to unknown events!'' [''default'']], Returned)"
proof -
  have a: "\<not> acceptable (Names [''signin'', ''signout'']) Undef" by (simp add: acceptable_def)
  have b: "\<not> acceptable NotArray (Fn 0)" by (simp add: acceptable_def)
  have k: "own_keys initial = [''default'']"
    by (simp add: own_keys_def own_entries_def initial_def is_array_index_def is_digit_def)
  from subscribeMultiple_rejects [OF a, of "Str ''z''" initial]
    subscribeMultiple_rejects [OF b, of "Str ''z''" initial] a b k
  show ?thesis by simp
qed

end
